theory Spec2Isabelle
  imports Main "HOL-Library.Sublist"
begin

section \<open>Python library primitives used by fsok\<close>

text \<open>
  A Python \<open>str\<close> is modelled as a HOL \<open>string\<close>: a list of characters, each character a
  code point below 256. Paths, search tokens and process output are such strings. The
  functions of this section model the built-ins and \<open>os.path\<close> functions (POSIX flavour)
  that \<open>fsok.py\<close> calls; they are not code of the repository.
\<close>

text \<open>\<open>s.split(sep)\<close> for a one-character separator: one more field than separators.\<close>

fun py_split :: "'a \<Rightarrow> 'a list \<Rightarrow> 'a list list" where
  "py_split sep [] = [[]]"
| "py_split sep (x # xs) =
     (if x = sep then [] # py_split sep xs
      else (case py_split sep xs of [] \<Rightarrow> [[x]] | w # ws \<Rightarrow> (x # w) # ws))"


text \<open>\<open>t in f\<close> on strings: \<open>t\<close> starts at some position of \<open>f\<close>.\<close>

fun py_in :: "'a list \<Rightarrow> 'a list \<Rightarrow> bool" where
  "py_in t [] = (t = [])"
| "py_in t (x # xs) = (prefix t (x # xs) \<or> py_in t xs)"

text \<open>The spec's words for the same relation: \<open>t\<close> is a contiguous substring of \<open>f\<close>.\<close>

definition contiguous_substring :: "'a list \<Rightarrow> 'a list \<Rightarrow> bool" where
  "contiguous_substring t f = (\<exists>ps ss. f = ps @ t @ ss)"

text \<open>\<open>str.isspace\<close> and \<open>str.strip()\<close> on code points below 256.\<close>

definition py_isspace :: "char \<Rightarrow> bool" where
  "py_isspace c = ((of_char c :: nat) \<in> {9, 10, 11, 12, 13, 28, 29, 30, 31, 32, 133, 160})"

definition py_strip :: "string \<Rightarrow> string" where
  "py_strip s = rev (dropWhile py_isspace (rev (dropWhile py_isspace s)))"

text \<open>\<open>str.isprintable\<close> of \<open>chr(ch)\<close> for \<open>0 \<le> ch < 255\<close>.\<close>

definition py_isprintable :: "int \<Rightarrow> bool" where
  "py_isprintable ch = ((32 \<le> ch \<and> ch \<le> 126) \<or> (161 \<le> ch \<and> ch \<le> 254 \<and> ch \<noteq> 173))"

definition sep :: char where
  "sep = CHR ''/''"

text \<open>
  \<open>os.path.split(p)\<close>: the tail is what follows the last separator, the head what
  precedes it, trailing separators stripped unless the head consists of separators only.
\<close>

definition os_split :: "string \<Rightarrow> string \<times> string" where
  "os_split p =
     (let head = rev (dropWhile (\<lambda>c. c \<noteq> sep) (rev p));
          tail = rev (takeWhile (\<lambda>c. c \<noteq> sep) (rev p))
      in (if head \<noteq> [] \<and> head \<noteq> replicate (length head) sep
          then rev (dropWhile (\<lambda>c. c = sep) (rev head)) else head, tail))"

text \<open>\<open>os.path.join(a, b)\<close> with two arguments.\<close>

definition os_join :: "string \<Rightarrow> string \<Rightarrow> string" where
  "os_join a b =
     (if b \<noteq> [] \<and> hd b = sep then b
      else if a = [] \<or> last a = sep then a @ b
      else a @ sep # b)"

section \<open>Program state\<close>

datatype error = SystemExit int | RecursionError | OSError | IndexError | KeyError | ValueError

type_synonym addr = nat

text \<open>A row of the tree view: \<open>(level, line, name)\<close>.\<close>

type_synonym display_node = "int \<times> int list \<times> string"

text \<open>
  The module's globals. \<open>files\<close> and \<open>hits\<close> are names bound to list objects: the state
  holds their addresses and \<open>heap\<close> the objects, so that \<open>hits = files\<close> binds both names
  to one object. \<open>stderr\<close> collects what was written to the error stream.
\<close>

record state =
  fzf_match :: bool
  treeview :: bool
  treeview_levels :: "display_node list"
  active :: int
  roots :: "string list"
  searchstr :: string
  files :: addr
  hits :: addr
  heap :: "addr \<Rightarrow> string list"
  next_addr :: addr
  stderr :: "string list"

definition file_list :: "state \<Rightarrow> string list" where
  "file_list s = heap s (files s)"

definition hit_list :: "state \<Rightarrow> string list" where
  "hit_list s = heap s (hits s)"

text \<open>A call either returns or raises; either way the globals are as the call left them.\<close>

datatype outcome = Returned state | Raised error state

fun globals_of :: "outcome \<Rightarrow> state" where
  "globals_of (Returned s) = s"
| "globals_of (Raised e s) = s"

text \<open>What the external fuzzy matcher pipeline does: it cannot be started, or it prints.\<close>

datatype proc_result = Launch_failed | Output string

text \<open>A directory entry of the file system that is walked.\<close>

datatype entry = File string | Dir string "entry list"

text \<open>
  The world outside the program: the fuzzy matcher (given the paths and the token), the
  directory contents behind a root path (\<open>None\<close>: not a directory), the editor's exit
  status (\<open>None\<close>: it cannot be started), the content of the state file (\<open>None\<close>: absent or
  unreadable), and the number of nested calls the interpreter still allows.
\<close>

record env =
  fzf_run :: "string list \<Rightarrow> string \<Rightarrow> proc_result"
  fs :: "string \<Rightarrow> entry list option"
  editor_run :: "string \<Rightarrow> int option"
  state_file :: "string option"
  recursion_limit :: nat

definition skipdirs :: "string list" where
  "skipdirs = [''.git'', ''.hg'', ''__pycache__'', ''flask_session'']"

definition skipfiles :: "string list" where
  "skipfiles = [''.jtv_state'', ''.jtvrc'']"

text \<open>The branch marker and the blank after it; U+25BD is written as its UTF-8 bytes.\<close>

definition branch_glyph :: string where
  "branch_glyph = [char_of (226 :: nat), char_of (150 :: nat), char_of (189 :: nat), CHR '' '']"

section \<open>Tree flattener\<close>

text \<open>
  \<open>path_splitter\<close>; the first argument is the number of nested calls still allowed, and
  \<open>None\<close> is Python's RecursionError.
\<close>

fun path_splitter :: "nat \<Rightarrow> string \<Rightarrow> (string \<times> string) list option" where
  "path_splitter 0 p = None"
| "path_splitter (Suc d) p =
     (case os_split p of (t, r) \<Rightarrow>
        if t \<noteq> [] then
          (case path_splitter d t of None \<Rightarrow> None | Some xx \<Rightarrow> Some (xx @ [(t, r)]))
        else if r \<noteq> [] then Some [([], r)]
        else Some [])"

text \<open>The local variables of \<open>create_levels\<close>.\<close>

record locals =
  line :: int
  used :: "string set"
  cache :: "string \<rightharpoonup> int list"
  curr_levels :: "(int \<times> int \<times> string \<times> string) list"

text \<open>The rows \<open>(i, line, parent, name, fullpath)\<close> of one hit.\<close>

definition mk_levels :: "int \<Rightarrow> (string \<times> string) list \<Rightarrow> (int \<times> int \<times> string \<times> string \<times> string) list" where
  "mk_levels ln path_tokens =
     map (\<lambda>(i, x). (i, ln, fst x,
                     (if i < int (length path_tokens) - 1 then branch_glyph @ snd x else snd x),
                     os_join (fst x) (snd x)))
         (zip (map int [0..<length path_tokens]) path_tokens)"

fun add_level :: "int \<times> int \<times> string \<times> string \<times> string \<Rightarrow> locals \<Rightarrow> error + locals" where
  "add_level (level, xline, parent, name, fullpath) a =
     (if fullpath \<notin> used a then
        Inr (a\<lparr>used := insert fullpath (used a),
               curr_levels := curr_levels a @ [(level, xline, name, fullpath)],
               cache := (cache a)(fullpath \<mapsto> [xline])\<rparr>)
      else (case cache a fullpath of
              None \<Rightarrow> Inl KeyError
            | Some ls \<Rightarrow> Inr (a\<lparr>cache := (cache a)(fullpath \<mapsto> ls @ [xline])\<rparr>)))"

fun add_levels :: "(int \<times> int \<times> string \<times> string \<times> string) list \<Rightarrow> locals \<Rightarrow> error + locals" where
  "add_levels [] a = Inr a"
| "add_levels (l # ls) a =
     (case add_level l a of Inl e \<Rightarrow> Inl e | Inr a' \<Rightarrow> add_levels ls a')"

fun flatten_hits :: "nat \<Rightarrow> string list \<Rightarrow> locals \<Rightarrow> error + locals" where
  "flatten_hits d [] a = Inr a"
| "flatten_hits d (f # rest) a =
     (case path_splitter d f of
        None \<Rightarrow> Inl RecursionError
      | Some path_tokens \<Rightarrow>
          (case add_levels (mk_levels (line a) path_tokens) (a\<lparr>line := line a + 1\<rparr>) of
             Inl e \<Rightarrow> Inl e
           | Inr a' \<Rightarrow> flatten_hits d rest a'))"

fun build_view :: "(string \<rightharpoonup> int list) \<Rightarrow> (int \<times> int \<times> string \<times> string) list \<Rightarrow>
    display_node list \<Rightarrow> error option \<times> display_node list" where
  "build_view c [] tv = (None, tv)"
| "build_view c ((level, xline, name, fullpath) # rest) tv =
     (case c fullpath of
        None \<Rightarrow> (Some KeyError, tv)
      | Some ls \<Rightarrow> build_view c rest (tv @ [(level, ls, name)]))"

definition init_locals :: locals where
  "init_locals = \<lparr>line = 0, used = {}, cache = Map.empty, curr_levels = []\<rparr>"

definition create_levels :: "env \<Rightarrow> state \<Rightarrow> outcome" where
  "create_levels ev s =
     (case flatten_hits (recursion_limit ev) (hit_list s) init_locals of
        Inl e \<Rightarrow> Raised e s
      | Inr a \<Rightarrow>
          (case build_view (cache a) (curr_levels a) [] of
             (None, tv) \<Rightarrow> Returned (s\<lparr>treeview_levels := tv\<rparr>)
           | (Some e, tv) \<Rightarrow> Raised e (s\<lparr>treeview_levels := tv\<rparr>)))"

section \<open>Matcher\<close>

definition fzf_search :: "env \<Rightarrow> state \<Rightarrow> error + string list" where
  "fzf_search ev s =
     (case fzf_run ev (file_list s) (searchstr s) of
        Launch_failed \<Rightarrow> Inl OSError
      | Output output \<Rightarrow> Inr (py_split (CHR 0x0A) (py_strip output)))"

text \<open>The inner loop over the sub-tokens, left at the first one found in the path.\<close>

fun multi_hit :: "string list \<Rightarrow> string \<Rightarrow> bool" where
  "multi_hit [] f = False"
| "multi_hit (t # ts) f = (if py_in t f then True else multi_hit ts f)"

text \<open>The loop over \<open>files\<close>; the last argument is \<open>hits\<close> as built so far.\<close>

fun match_files :: "bool \<Rightarrow> string \<Rightarrow> string list \<Rightarrow> string list \<Rightarrow> string list \<Rightarrow> string list" where
  "match_files multi_search tok toks [] acc = acc"
| "match_files multi_search tok toks (f # rest) acc =
     (if multi_search then
        (if multi_hit toks f then match_files multi_search tok toks rest (acc @ [f])
         else match_files multi_search tok toks rest acc)
      else
        (if py_in tok f then match_files multi_search tok toks rest (acc @ [f])
         else match_files multi_search tok toks rest acc))"

text \<open>Binding \<open>hits\<close> to a new list object.\<close>

definition bind_hits_new :: "string list \<Rightarrow> state \<Rightarrow> state" where
  "bind_hits_new xs s =
     s\<lparr>hits := next_addr s, heap := (heap s)(next_addr s := xs), next_addr := Suc (next_addr s)\<rparr>"

definition set_active :: "state \<Rightarrow> state" where
  "set_active s = (if hit_list s \<noteq> [] then s\<lparr>active := 0\<rparr> else s\<lparr>active := - 1\<rparr>)"

definition search_files :: "env \<Rightarrow> state \<Rightarrow> outcome" where
  "search_files ev s =
     (if searchstr s = [] then create_levels ev (set_active (s\<lparr>hits := files s\<rparr>))
      else if fzf_match s then
        (case fzf_search ev s of
           Inl e \<Rightarrow> Raised e s
         | Inr grepped_files \<Rightarrow> create_levels ev (set_active (bind_hits_new grepped_files s)))
      else
        (let tok = searchstr s;
             toks = py_split (CHR ''|'') tok;
             multi_search = (CHR ''|'' \<in> set tok)
         in create_levels ev
              (set_active (bind_hits_new (match_files multi_search tok toks (file_list s) []) s))))"

section \<open>Navigation\<close>

definition move_active :: "bool \<Rightarrow> state \<Rightarrow> outcome" where
  "move_active up s =
     (if up then
        (if active s > 0 then Returned (s\<lparr>active := active s - 1\<rparr>) else Returned s)
      else if treeview s then
        (case treeview_levels s of
           [] \<Rightarrow> Returned s
         | _ # _ \<Rightarrow>
             (case last (treeview_levels s) of (level, ln, name) \<Rightarrow>
                (case ln of
                   [] \<Rightarrow> Raised IndexError s
                 | l0 # _ \<Rightarrow>
                     if active s < l0 then Returned (s\<lparr>active := active s + 1\<rparr>)
                     else Returned s)))
      else
        (if active s + 1 < int (length (hit_list s)) then Returned (s\<lparr>active := active s + 1\<rparr>)
         else Returned s))"

section \<open>Path indexer\<close>

text \<open>
  \<open>os.walk\<close>, top-down, together with the loop body of \<open>find_files\<close>: the files of a
  directory that are not skipped, then the walk of each sub-directory that is not skipped.
\<close>

fun walk_files :: "string \<Rightarrow> entry list \<Rightarrow> string list" where
  "walk_files r entries =
     concat (map (\<lambda>e. case e of File x \<Rightarrow> if x \<notin> set skipfiles then [os_join r x] else []
                               | Dir d sub \<Rightarrow> [])
                 entries)
     @ concat (map (\<lambda>e. case e of File x \<Rightarrow> []
                                 | Dir d sub \<Rightarrow>
                                     if d \<notin> set skipdirs then walk_files (os_join r d) sub else [])
                   entries)"

declare walk_files.simps [simp del]

text \<open>The loop over \<open>roots\<close>; \<open>files += ...\<close> extends the list object in place.\<close>

fun index_roots :: "env \<Rightarrow> string list \<Rightarrow> state \<Rightarrow> outcome" where
  "index_roots ev [] s = Returned s"
| "index_roots ev (root # rest) s =
     (case fs ev root of
        None \<Rightarrow>
          Raised (SystemExit 1)
            (s\<lparr>stderr := stderr s @ [''[ERROR] directory not found: '' @ root @ [CHR 0x0A]]\<rparr>)
      | Some entries \<Rightarrow>
          index_roots ev rest
            (s\<lparr>heap := (heap s)(files s := heap s (files s) @ walk_files root entries)\<rparr>))"

definition find_files :: "env \<Rightarrow> state \<Rightarrow> outcome" where
  "find_files ev s =
     (case index_roots ev (roots s) s of
        Raised e s' \<Rightarrow> Raised e s'
      | Returned s' \<Rightarrow> create_levels ev (s'\<lparr>hits := files s'\<rparr>))"

definition reload_tree :: "env \<Rightarrow> state \<Rightarrow> outcome" where
  "reload_tree ev s =
     find_files ev
       (s\<lparr>treeview_levels := [], files := next_addr s,
          heap := (heap s)(next_addr s := []), next_addr := Suc (next_addr s)\<rparr>)"

section \<open>Main loop\<close>

definition open_file :: "env \<Rightarrow> state \<Rightarrow> outcome" where
  "open_file ev s =
     (if active s \<ge> 0 then
        (if active s < int (length (hit_list s)) then
           (case editor_run ev (hit_list s ! nat (active s)) of
              None \<Rightarrow> Raised OSError s
            | Some fail \<Rightarrow> Returned s)
         else Raised IndexError s)
      else Returned s)"

text \<open>Key codes of the curses library.\<close>

definition KEY_DOWN :: int where "KEY_DOWN = 258"
definition KEY_UP :: int where "KEY_UP = 259"
definition KEY_BACKSPACE :: int where "KEY_BACKSPACE = 263"
definition KEY_F5 :: int where "KEY_F5 = 269"
definition KEY_RESIZE :: int where "KEY_RESIZE = 410"

datatype step = Continue state | Break state | Crash error state

text \<open>The end of a loop iteration: an exception leaves the loop, \<open>dosearch\<close> searches again.\<close>

definition finish :: "env \<Rightarrow> bool \<Rightarrow> outcome \<Rightarrow> step" where
  "finish ev dosearch r =
     (case r of
        Raised e s \<Rightarrow> Crash e s
      | Returned s \<Rightarrow>
          if dosearch then
            (case search_files ev s of Raised e s' \<Rightarrow> Crash e s' | Returned s' \<Rightarrow> Continue s')
          else Continue s)"

text \<open>
  One iteration of the loop of \<open>mainloop\<close> on the key \<open>ch\<close> read from the terminal.
  Drawing the screen and writing the log are left out.
\<close>

definition mainloop_step :: "env \<Rightarrow> int \<Rightarrow> state \<Rightarrow> step" where
  "mainloop_step ev ch s =
     (if ch = KEY_BACKSPACE \<and> searchstr s \<noteq> [] then
        finish ev True (Returned (s\<lparr>searchstr := butlast (searchstr s)\<rparr>))
      else if ch = KEY_RESIZE then finish ev False (Returned s)
      else if ch = 18 then
        finish ev True (Returned (s\<lparr>heap := (heap s)(files s := rev (heap s (files s)))\<rparr>))
      else if ch = 8 then finish ev True (Returned (s\<lparr>searchstr := []\<rparr>))
      else if ch = 10 then
        (if searchstr s \<in> set ['':q'', '':q!'', '':exit'', ''exit()''] then Break s
         else finish ev False (open_file ev s))
      else if ch = 20 then finish ev False (Returned (s\<lparr>treeview := \<not> treeview s\<rparr>))
      else if ch = 11 then finish ev True (Returned (s\<lparr>fzf_match := \<not> fzf_match s\<rparr>))
      else if ch > 255 then
        (if ch = KEY_UP then finish ev False (move_active True s)
         else if ch = KEY_DOWN then finish ev False (move_active False s)
         else if ch = KEY_F5 then finish ev True (reload_tree ev s)
         else if ch = 330 then finish ev False (Returned (s\<lparr>searchstr := []\<rparr>))
         else finish ev False (Returned s))
      else if ch < 255 then
        (if ch < 0 then Crash ValueError s
         else if py_isprintable ch then
           finish ev True (Returned (s\<lparr>searchstr := searchstr s @ [char_of (nat ch)]\<rparr>))
         else finish ev False (Returned s))
      else finish ev True (Returned s))"

fun run_keys :: "env \<Rightarrow> int list \<Rightarrow> state \<Rightarrow> step" where
  "run_keys ev [] s = Continue s"
| "run_keys ev (ch # rest) s =
     (case mainloop_step ev ch s of
        Continue s' \<Rightarrow> run_keys ev rest s'
      | Break s' \<Rightarrow> Break s'
      | Crash e s' \<Rightarrow> Crash e s')"

text \<open>\<open>mainloop\<close> on the keys read until the input ends.\<close>

definition mainloop :: "env \<Rightarrow> int list \<Rightarrow> state \<Rightarrow> step" where
  "mainloop ev keys s =
     (case search_files ev s of
        Raised e s' \<Rightarrow> Crash e s'
      | Returned s' \<Rightarrow> run_keys ev keys s')"

text \<open>
  \<open>restore_state\<close>: every exception but SystemExit is swallowed by its
  \<open>except Exception\<close>.
\<close>

definition restore_state :: "env \<Rightarrow> state \<Rightarrow> outcome" where
  "restore_state ev s =
     (case state_file ev of
        None \<Rightarrow> Returned s
      | Some raw \<Rightarrow>
          (let content = py_strip raw in
           if content \<noteq> [] then
             (case search_files ev (s\<lparr>searchstr := content\<rparr>) of
                Returned s' \<Rightarrow> Returned s'
              | Raised e s' \<Rightarrow>
                  (case e of SystemExit n \<Rightarrow> Raised e s' | _ \<Rightarrow> Returned s'))
           else Returned s))"

text \<open>The globals when the module is loaded.\<close>

definition initial_state :: state where
  "initial_state =
     \<lparr>fzf_match = False, treeview = True, treeview_levels = [], active = 0,
      roots = [''src''], searchstr = [], files = 0, hits = 1, heap = (\<lambda>_. []),
      next_addr = 2, stderr = []\<rparr>"

text \<open>
  \<open>main\<close> after option parsing: \<open>fzf\<close> is the \<open>-f\<close> flag, \<open>args\<close> the root arguments,
  \<open>keys\<close> the keys typed.
\<close>

definition main :: "env \<Rightarrow> bool \<Rightarrow> string list \<Rightarrow> int list \<Rightarrow> step" where
  "main ev fzf args keys =
     (let s0 = initial_state\<lparr>fzf_match := fzf,
                               roots := (if args \<noteq> [] then args else roots initial_state)\<rparr>
      in case find_files ev s0 of
           Raised e s \<Rightarrow> Crash e s
         | Returned s \<Rightarrow>
             (case restore_state ev s of
                Raised e s' \<Rightarrow> Crash e s'
              | Returned s' \<Rightarrow> mainloop ev keys s'))"

section \<open>Example inputs\<close>

text \<open>The three paths of the spec's scenario, indexed and bound to both names.\<close>

definition scenario_files :: "string list" where
  "scenario_files = [''a/b/x.txt'', ''a/b/y.txt'', ''a/c/z.txt'']"

definition scenario :: "string \<Rightarrow> state" where
  "scenario tok =
     initial_state\<lparr>roots := [''a''], searchstr := tok, files := 0, hits := 0,
                    heap := (\<lambda>_. [])(0 := scenario_files)\<rparr>"

text \<open>A world without a fuzzy matcher, and one whose fuzzy matcher prints nothing.\<close>

definition plain_world :: env where
  "plain_world =
     \<lparr>fzf_run = (\<lambda>paths tok. Launch_failed),
      fs = (\<lambda>r. if r = ''a'' then Some [Dir ''b'' [File ''x.txt'', File ''y.txt''],
                                           Dir ''c'' [File ''z.txt'']]
                 else None),
      editor_run = (\<lambda>path. Some 0), state_file = None, recursion_limit = 900\<rparr>"

definition silent_world :: env where
  "silent_world = plain_world\<lparr>fzf_run := (\<lambda>paths tok. Output [])\<rparr>"

text \<open>A world whose directory \<open>a\<close> holds the one file \<open>x\<close>.\<close>

definition tiny_world :: env where
  "tiny_world = plain_world\<lparr>fs := (\<lambda>r. if r = ''a'' then Some [File ''x''] else None)\<rparr>"

text \<open>The globals after \<open>fsok a a\<close> has started in \<open>tiny_world\<close>.\<close>

definition doubled :: state where
  "doubled =
     initial_state\<lparr>roots := [''a'', ''a''], files := 0, hits := 0,
       heap := (\<lambda>_. [])(0 := [''a/x'', ''a/x'']),
       treeview_levels := [(0, [0, 1], branch_glyph @ ''a''), (1, [0, 1], ''x'')]\<rparr>"

text \<open>The globals after the scenario's paths were searched with the empty token.\<close>

definition shown :: state where
  "shown =
     (scenario [])\<lparr>treeview_levels :=
       [(0, [0, 1, 2], branch_glyph @ ''a''), (1, [0, 1], branch_glyph @ ''b''),
        (2, [0], ''x.txt''), (2, [1], ''y.txt''), (1, [2], branch_glyph @ ''c''),
        (2, [2], ''z.txt'')]\<rparr>"

text \<open>
  A world whose directory \<open>/srv\<close> holds the one file \<open>x\<close>, with room for \<open>n\<close> nested
  calls.
\<close>

definition srv_world :: "nat \<Rightarrow> env" where
  "srv_world n = plain_world\<lparr>fs := (\<lambda>r. if r = ''/srv'' then Some [File ''x''] else None),
      recursion_limit := n\<rparr>"

section \<open>Valid positions of the Active Index\<close>

text \<open>The line-index set of the final Display Node.\<close>

definition last_lines :: "state \<Rightarrow> int list" where
  "last_lines s = fst (snd (last (treeview_levels s)))"

text \<open>
  The spec's states of the navigation controller: in tree view the Active Index is \<open>-1\<close>
  without Display Nodes and otherwise a row number from 0 up to the largest line number
  of the final Display Node; in flat view it is \<open>-1\<close> for an empty Hit List and otherwise
  an index into the Hit List.
\<close>

definition valid_active :: "state \<Rightarrow> bool" where
  "valid_active s =
     (if treeview s then
        (if treeview_levels s = [] then active s = - 1
         else last_lines s \<noteq> [] \<and> 0 \<le> active s \<and> active s \<le> Max (set (last_lines s)))
      else
        (if hit_list s = [] then active s = - 1
         else 0 \<le> active s \<and> active s < int (length (hit_list s))))"

section \<open>Path segments\<close>


section \<open>What the flattener is to build\<close>

text \<open>A row \<open>(i, line, parent, name, fullpath)\<close> of \<open>levels\<close> and its parts.\<close>

type_synonym level_row = "int \<times> int \<times> string \<times> string \<times> string"

definition row_path :: "level_row \<Rightarrow> string" where
  "row_path l = (case l of (level, xline, parent, name, fullpath) \<Rightarrow> fullpath)"

definition row_line :: "level_row \<Rightarrow> int" where
  "row_line l = (case l of (level, xline, parent, name, fullpath) \<Rightarrow> xline)"

definition row_node :: "level_row \<Rightarrow> int \<times> int \<times> string \<times> string" where
  "row_node l = (case l of (level, xline, parent, name, fullpath) \<Rightarrow> (level, xline, name, fullpath))"

text \<open>The elements of a list whose key was not seen before, in their order.\<close>

primrec keep_first :: "('a \<Rightarrow> 'k) \<Rightarrow> 'k set \<Rightarrow> 'a list \<Rightarrow> 'a list" where
  "keep_first key seen [] = []"
| "keep_first key seen (x # xs) =
     (if key x \<in> seen then keep_first key seen xs
      else x # keep_first key (insert (key x) seen) xs)"

text \<open>The cumulative full paths of the segments of one hit, top down.\<close>

definition fullpaths :: "(string \<times> string) list \<Rightarrow> string list" where
  "fullpaths toks = map (\<lambda>(t, r). os_join t r) toks"

definition hit_paths :: "nat \<Rightarrow> string \<Rightarrow> string list" where
  "hit_paths d f = (case path_splitter d f of None \<Rightarrow> [] | Some toks \<Rightarrow> fullpaths toks)"


text \<open>The output lines of the hits that pass through a full path, in hit order.\<close>

definition lines_through :: "nat \<Rightarrow> string list \<Rightarrow> string \<Rightarrow> int list" where
  "lines_through d hs fp =
     map int (filter (\<lambda>i. fp \<in> set (hit_paths d (hs ! i))) [0..<length hs])"

text \<open>
  The loop invariant of \<open>create_levels\<close>: after the rows \<open>hist\<close>, \<open>used\<close> holds their
  full paths, \<open>cache\<close> maps each to the lines of its rows in order, and \<open>curr_levels\<close>
  holds the first row of each full path.
\<close>

definition traced :: "level_row list \<Rightarrow> locals \<Rightarrow> bool" where
  "traced hist a =
     (used a = row_path ` set hist \<and>
      (\<forall>k. cache a k =
         (if k \<in> row_path ` set hist
          then Some (map row_line (filter (\<lambda>l. row_path l = k) hist)) else None)) \<and>
      curr_levels a = map row_node (keep_first row_path {} hist))"

section \<open>Matcher: substring and OR mode\<close>

lemma py_in_iff: "py_in t f = contiguous_substring t f"
proof (induction f)
  case Nil
  show ?case by (auto simp: contiguous_substring_def)
next
  case (Cons x xs)
  show ?case
  proof
    assume "py_in t (x # xs)"
    then consider "prefix t (x # xs)" | "contiguous_substring t xs" using Cons by auto
    then show "contiguous_substring t (x # xs)"
    proof cases
      case 1
      then obtain ss where "x # xs = t @ ss" by (auto simp: prefix_def)
      then have "x # xs = [] @ t @ ss" by simp
      then show ?thesis unfolding contiguous_substring_def by blast
    next
      case 2
      then obtain ps ss where "xs = ps @ t @ ss" by (auto simp: contiguous_substring_def)
      then have "x # xs = (x # ps) @ t @ ss" by simp
      then show ?thesis unfolding contiguous_substring_def by blast
    qed
  next
    assume "contiguous_substring t (x # xs)"
    then obtain ps ss where eq: "x # xs = ps @ t @ ss" by (auto simp: contiguous_substring_def)
    show "py_in t (x # xs)"
    proof (cases ps)
      case Nil
      with eq have "prefix t (x # xs)" by (simp add: prefix_def)
      then show ?thesis by simp
    next
      case (Cons p ps')
      with eq have "xs = ps' @ t @ ss" by simp
      then have "contiguous_substring t xs" unfolding contiguous_substring_def by blast
      with Cons.IH show ?thesis by simp
    qed
  qed
qed

lemma contiguous_substring_Nil [simp]: "contiguous_substring [] f"
  unfolding contiguous_substring_def by (metis append_Nil)

lemma multi_hit_iff: "multi_hit ts f = (\<exists>t\<in>set ts. py_in t f)"
  by (induction ts) auto

lemma match_files_filter:
  "match_files m tok toks fl acc =
     acc @ filter (\<lambda>f. if m then multi_hit toks f else py_in tok f) fl"
  by (induction fl arbitrary: acc) auto

lemma py_split_no_sep: "c \<notin> set xs \<Longrightarrow> py_split c xs = [xs]"
  by (induction xs) auto

lemma count_list_filter:
  "count_list (filter P xs) p = (if P p then count_list xs p else 0)"
  by (induction xs) auto

text \<open>\<open>create_levels\<close> assigns \<open>treeview_levels\<close> and nothing else, also when it raises.\<close>

lemma create_levels_globals:
  "globals_of (create_levels ev s) =
     s\<lparr>treeview_levels := treeview_levels (globals_of (create_levels ev s))\<rparr>"
  by (auto simp: create_levels_def split: sum.splits prod.splits option.splits)

lemma create_levels_hit_list [simp]: "hit_list (globals_of (create_levels ev s)) = hit_list s"
  by (subst create_levels_globals) (simp add: hit_list_def)

lemma create_levels_fields [simp]:
  "hits (globals_of (create_levels ev s)) = hits s"
  "files (globals_of (create_levels ev s)) = files s"
  "heap (globals_of (create_levels ev s)) = heap s"
  "active (globals_of (create_levels ev s)) = active s"
  by (subst create_levels_globals, simp)+

lemma set_active_fields [simp]:
  "hits (set_active s) = hits s" "files (set_active s) = files s"
  "heap (set_active s) = heap s" "hit_list (set_active s) = hit_list s"
  by (simp_all add: set_active_def hit_list_def)

lemma hit_list_bind_hits_new [simp]: "hit_list (bind_hits_new xs s) = xs"
  by (simp add: bind_hits_new_def hit_list_def)

lemma search_files_substring_hits:
  assumes "searchstr s \<noteq> []" "\<not> fzf_match s"
  shows "hit_list (globals_of (search_files ev s)) =
    filter (\<lambda>f. if CHR ''|'' \<in> set (searchstr s)
                 then \<exists>t\<in>set (py_split (CHR ''|'') (searchstr s)). contiguous_substring t f
                 else contiguous_substring (searchstr s) f) (file_list s)"
  using assms by (simp add: search_files_def Let_def match_files_filter multi_hit_iff py_in_iff)

lemma scenario_simps [simp]:
  "searchstr (scenario tok) = tok" "\<not> fzf_match (scenario tok)"
  "file_list (scenario tok) = scenario_files" "files (scenario tok) = 0"
  by (simp_all add: scenario_def initial_state_def file_list_def)

text \<open>
  C5. In substring mode, a non-empty search token without \<open>|\<close> leaves as Hit List exactly
  the paths that contain the whole token as a contiguous substring, in the order of the
  path list.
\<close>

theorem plain_token_hit_list:
  assumes "searchstr s \<noteq> []" and "CHR ''|'' \<notin> set (searchstr s)" and "\<not> fzf_match s"
  shows "hit_list (globals_of (search_files ev s)) =
           filter (contiguous_substring (searchstr s)) (file_list s)"
  using assms by (simp add: search_files_substring_hits)

theorem plain_token_hit_list_witness:
  "hit_list (globals_of (search_files plain_world (scenario ''b/''))) =
     [''a/b/x.txt'', ''a/b/y.txt'']"
proof -
  have "searchstr (scenario ''b/'') \<noteq> []" and "CHR ''|'' \<notin> set (searchstr (scenario ''b/''))"
    and "\<not> fzf_match (scenario ''b/'')"
    by simp_all
  from plain_token_hit_list [OF this, of plain_world] show ?thesis
    by (simp add: scenario_files_def py_in_iff [symmetric])
qed

text \<open>
  C1. In substring/OR mode, a search token that contains \<open>|\<close> leaves as Hit List exactly
  the paths of which at least one sub-token, obtained by splitting the token on \<open>|\<close>, is a
  contiguous substring; the paths keep the order of the path list, and a path occurs in
  the Hit List as often as in the path list, however many sub-tokens match it. (The loop
  over the sub-tokens, \<open>multi_hit\<close>, tries them in split order and stops at the first
  match.)
\<close>

theorem or_token_hit_list:
  assumes "CHR ''|'' \<in> set (searchstr s)" and "\<not> fzf_match s"
  shows "hit_list (globals_of (search_files ev s)) =
           filter (\<lambda>f. \<exists>t\<in>set (py_split (CHR ''|'') (searchstr s)). contiguous_substring t f)
                  (file_list s)
         \<and> (\<forall>p. count_list (hit_list (globals_of (search_files ev s))) p =
                (if \<exists>t\<in>set (py_split (CHR ''|'') (searchstr s)). contiguous_substring t p
                 then count_list (file_list s) p else 0))"
proof -
  from assms(1) have "searchstr s \<noteq> []" by auto
  with assms have eq: "hit_list (globals_of (search_files ev s)) =
      filter (\<lambda>f. \<exists>t\<in>set (py_split (CHR ''|'') (searchstr s)). contiguous_substring t f)
             (file_list s)"
    by (simp add: search_files_substring_hits)
  show ?thesis unfolding eq by (simp add: count_list_filter)
qed

theorem or_token_hit_list_witness:
  "hit_list (globals_of (search_files plain_world (scenario ''y|z|b/y''))) =
     [''a/b/y.txt'', ''a/c/z.txt'']"
proof -
  have "CHR ''|'' \<in> set (searchstr (scenario ''y|z|b/y''))"
    and "\<not> fzf_match (scenario ''y|z|b/y'')"
    by simp_all
  from or_token_hit_list [OF this, of plain_world] show ?thesis
    by (simp add: scenario_files_def py_in_iff [symmetric])
qed

text \<open>
  C7. In substring/OR mode, a non-empty search token whose split on \<open>|\<close> yields an empty
  sub-token (a leading or trailing \<open>|\<close>, or two in a row) contains \<open>|\<close> and makes every
  path a hit: the Hit List is the whole path list, in order.
\<close>

theorem empty_sub_token_hits_all:
  assumes "searchstr s \<noteq> []" and "[] \<in> set (py_split (CHR ''|'') (searchstr s))"
    and "\<not> fzf_match s"
  shows "CHR ''|'' \<in> set (searchstr s) \<and>
         hit_list (globals_of (search_files ev s)) = file_list s"
proof -
  have bar: "CHR ''|'' \<in> set (searchstr s)"
  proof (rule ccontr)
    assume "CHR ''|'' \<notin> set (searchstr s)"
    then have "py_split (CHR ''|'') (searchstr s) = [searchstr s]" by (rule py_split_no_sep)
    with assms(1,2) show False by simp
  qed
  have "filter (\<lambda>f. \<exists>t\<in>set (py_split (CHR ''|'') (searchstr s)). contiguous_substring t f)
          (file_list s) = file_list s"
  proof (rule filter_True, rule ballI)
    fix f assume "f \<in> set (file_list s)"
    from assms(2) contiguous_substring_Nil [of f]
    show "\<exists>t\<in>set (py_split (CHR ''|'') (searchstr s)). contiguous_substring t f"
      by (rule bexI [rotated])
  qed
  with bar assms(1,3) show ?thesis by (simp add: search_files_substring_hits)
qed

theorem empty_sub_token_hits_all_witness:
  "hit_list (globals_of (search_files plain_world (scenario ''q|''))) = scenario_files"
proof -
  have "searchstr (scenario ''q|'') \<noteq> []"
    and "[] \<in> set (py_split (CHR ''|'') (searchstr (scenario ''q|'')))"
    and "\<not> fzf_match (scenario ''q|'')"
    by simp_all
  from empty_sub_token_hits_all [OF this, of plain_world] show ?thesis by simp
qed

section \<open>Reaching the example states\<close>

lemmas eval_defs = walk_files.simps os_split_def os_join_def sep_def mk_levels_def init_locals_def
  create_levels_def hit_list_def file_list_def skipfiles_def skipdirs_def set_active_def
  eval_nat_numeral upt_rec

lemma doubled_reached: "main tiny_world False [''a'', ''a''] [] = Continue doubled"
  by (simp add: main_def find_files_def restore_state_def mainloop_def search_files_def
      initial_state_def tiny_world_def plain_world_def doubled_def eval_defs)

lemma shown_reached: "search_files plain_world (scenario []) = Returned shown"
  by (simp add: search_files_def scenario_def scenario_files_def shown_def
      initial_state_def plain_world_def eval_defs)

section \<open>Matcher: empty token\<close>

text \<open>
  C6. With an empty search token, whatever the matcher mode, \<open>search_files\<close> binds
  \<open>hits\<close> to the very list object that \<open>files\<close> names, without touching an object: the
  Hit List is the path list itself, not a copy.
\<close>

theorem empty_token_identity:
  assumes "searchstr s = []"
  shows "hits (globals_of (search_files ev s)) = files (globals_of (search_files ev s)) \<and>
         files (globals_of (search_files ev s)) = files s \<and>
         heap (globals_of (search_files ev s)) = heap s \<and>
         hit_list (globals_of (search_files ev s)) = file_list s"
  using assms by (simp add: search_files_def hit_list_def file_list_def)

theorem empty_token_identity_witness:
  "hits (globals_of (search_files plain_world ((scenario [])\<lparr>fzf_match := True, hits := 1\<rparr>))) = 0
   \<and> hit_list (globals_of (search_files plain_world
                  ((scenario [])\<lparr>fzf_match := True, hits := 1\<rparr>))) = scenario_files"
proof -
  have "searchstr ((scenario [])\<lparr>fzf_match := True, hits := 1\<rparr>) = []"
    by (simp add: scenario_def)
  from empty_token_identity [OF this, of plain_world] show ?thesis
    by (simp add: scenario_def file_list_def)
qed

text \<open>A non-empty token binds \<open>hits\<close> to a new object instead.\<close>

lemma nonempty_token_new_object:
  assumes "searchstr s \<noteq> []" and "\<not> fzf_match s" and "files s < next_addr s"
  shows "hits (globals_of (search_files ev s)) \<noteq> files (globals_of (search_files ev s))"
  using assms by (simp add: search_files_def Let_def bind_hits_new_def)

section \<open>Navigation: moving the Active Index\<close>

text \<open>
  C3, amended. In tree view with a non-empty Display Node sequence, a "down" intent
  increments the Active Index by 1 if and only if the Active Index is less than the
  first line number recorded in the final Display Node's line-index set, and is a no-op
  otherwise.
\<close>

theorem tree_down_first_line:
  assumes "treeview s" and "treeview_levels s \<noteq> []" and "last_lines s = l0 # rest"
  shows "move_active False s =
           Returned (if active s < l0 then s\<lparr>active := active s + 1\<rparr> else s)"
  using assms by (auto simp: move_active_def last_lines_def split: list.splits prod.splits)

theorem tree_down_first_line_witness:
  "move_active False shown = Returned (shown\<lparr>active := 1\<rparr>)"
proof -
  have "treeview shown" "treeview_levels shown \<noteq> []" "last_lines shown = 2 # []"
    by (simp_all add: shown_def scenario_def initial_state_def last_lines_def)
  from tree_down_first_line [OF this] show ?thesis
    by (simp add: shown_def scenario_def initial_state_def)
qed

text \<open>
  C3 as stated fails where the final Display Node has recorded several lines: after
  \<open>fsok a a\<close> the final node holds the lines 0 and 1, the Active Index 0 is below the
  maximum 1, and "down" does not move it.
\<close>

theorem tree_down_below_max_counterexample:
  "treeview doubled \<and> treeview_levels doubled \<noteq> [] \<and>
   active doubled < Max (set (last_lines doubled)) \<and>
   move_active False doubled = Returned doubled"
  by (simp add: doubled_def initial_state_def last_lines_def move_active_def)

lemma move_active_step:
  assumes "valid_active s"
  shows "\<exists>s'. move_active up s = Returned s' \<and> valid_active s' \<and> s' = s\<lparr>active := active s'\<rparr>"
proof (cases up)
  case True
  with assms show ?thesis
    by (auto simp: move_active_def valid_active_def last_lines_def hit_list_def)
next
  case False
  show ?thesis
  proof (cases "treeview s")
    case flat: False
    with False assms show ?thesis
      by (auto simp: move_active_def valid_active_def hit_list_def)
  next
    case tree: True
    show ?thesis
    proof (cases "treeview_levels s")
      case Nil
      with False tree assms show ?thesis by (simp add: move_active_def)
    next
      case (Cons n ns)
      obtain level ln name where lst: "last (treeview_levels s) = (level, ln, name)"
        by (cases "last (treeview_levels s)") auto
      from assms tree Cons lst have ne: "ln \<noteq> []" and lo: "0 \<le> active s"
        and hi: "active s \<le> Max (set ln)"
        by (simp_all add: valid_active_def last_lines_def)
      then obtain l0 rest where ln: "ln = l0 # rest" by (cases ln) auto
      have l0: "l0 \<le> Max (set ln)" unfolding ln by simp
      have mv: "move_active False s =
          Returned (if active s < l0 then s\<lparr>active := active s + 1\<rparr> else s)"
        using tree Cons lst ln by (simp add: move_active_def)
      show ?thesis
      proof (cases "active s < l0")
        case True
        with l0 have "active s + 1 \<le> Max (set ln)" by linarith
        with True mv False tree Cons lst ne lo show ?thesis
          by (simp add: valid_active_def last_lines_def)
      next
        case False
        with mv \<open>\<not> up\<close> assms show ?thesis by simp
      qed
    qed
  qed
qed


lemma updown_step:
  assumes "valid_active s" and "ch = KEY_UP \<or> ch = KEY_DOWN"
  shows "\<exists>s'. mainloop_step ev ch s = Continue s' \<and> valid_active s' \<and>
              s' = s\<lparr>active := active s'\<rparr>"
proof -
  from assms(2) obtain up where
    st: "mainloop_step ev ch s = finish ev False (move_active up s)"
    by (auto simp: mainloop_step_def KEY_UP_def KEY_DOWN_def KEY_BACKSPACE_def KEY_RESIZE_def)
  from move_active_step [OF assms(1), of up] obtain s' where
    "move_active up s = Returned s'" "valid_active s'" "s' = s\<lparr>active := active s'\<rparr>"
    by blast
  with st show ?thesis by (auto simp: finish_def)
qed

lemma run_updown:
  assumes "valid_active s" and "set keys \<subseteq> {KEY_UP, KEY_DOWN}"
  shows "\<exists>s'. run_keys ev keys s = Continue s' \<and> valid_active s' \<and>
              s' = s\<lparr>active := active s'\<rparr>"
  using assms
proof (induction keys arbitrary: s)
  case Nil
  then show ?case by simp
next
  case (Cons ch keys)
  from Cons.prems have "ch = KEY_UP \<or> ch = KEY_DOWN" by auto
  from updown_step [OF Cons.prems(1) this, of ev] obtain s1 where
    s1: "mainloop_step ev ch s = Continue s1" "valid_active s1" "s1 = s\<lparr>active := active s1\<rparr>"
    by blast
  from Cons.prems have "set keys \<subseteq> {KEY_UP, KEY_DOWN}" by auto
  from Cons.IH [OF s1(2) this] obtain s2 where
    s2: "run_keys ev keys s1 = Continue s2" "valid_active s2" "s2 = s1\<lparr>active := active s2\<rparr>"
    by blast
  from s1(3) s2(3) have "s2 = s\<lparr>active := active s2\<rparr>"
    by (metis state.update_convs(4) state.surjective state.select_convs(4))
  with s1(1) s2(1,2) show ?case by simp
qed

text \<open>
  C8. "Up" is a no-op at Active Index 0 and at -1; "down" is a no-op at the last valid
  index, in flat view (the last index of the Hit List) and in tree view (the largest line
  number of the final Display Node); and from a valid position every sequence of up and
  down keys runs through the main loop without an exception, changes nothing but the
  Active Index and leaves it at a valid position.
\<close>

theorem navigation_stays_in_range:
  "(active s = 0 \<or> active s = - 1 \<longrightarrow> move_active True s = Returned s) \<and>
   (\<not> treeview s \<and> active s = int (length (hit_list s)) - 1 \<longrightarrow>
      move_active False s = Returned s) \<and>
   (treeview s \<and> treeview_levels s \<noteq> [] \<and> last_lines s \<noteq> [] \<and>
      active s = Max (set (last_lines s)) \<longrightarrow> move_active False s = Returned s) \<and>
   (valid_active s \<and> set keys \<subseteq> {KEY_UP, KEY_DOWN} \<longrightarrow>
      (\<exists>s'. run_keys ev keys s = Continue s' \<and> valid_active s' \<and>
            s' = s\<lparr>active := active s'\<rparr>))"
proof (intro conjI impI)
  assume "active s = 0 \<or> active s = - 1"
  then show "move_active True s = Returned s" by (auto simp: move_active_def)
next
  assume "\<not> treeview s \<and> active s = int (length (hit_list s)) - 1"
  then show "move_active False s = Returned s" by (simp add: move_active_def)
next
  assume a: "treeview s \<and> treeview_levels s \<noteq> [] \<and> last_lines s \<noteq> [] \<and>
      active s = Max (set (last_lines s))"
  then obtain l0 rest where ln: "last_lines s = l0 # rest" by (cases "last_lines s") auto
  have "l0 \<le> Max (set (last_lines s))" unfolding ln by simp
  with a ln show "move_active False s = Returned s"
    by (auto simp: move_active_def last_lines_def split: list.splits prod.splits)
next
  assume "valid_active s \<and> set keys \<subseteq> {KEY_UP, KEY_DOWN}"
  then show "\<exists>s'. run_keys ev keys s = Continue s' \<and> valid_active s' \<and>
            s' = s\<lparr>active := active s'\<rparr>"
    using run_updown by blast
qed

theorem navigation_stays_in_range_witness:
  "valid_active shown \<and>
   (\<exists>s'. run_keys plain_world [KEY_DOWN, KEY_DOWN, KEY_DOWN, KEY_UP] shown = Continue s' \<and>
         valid_active s' \<and> active s' = 1)"
proof -
  have v: "valid_active shown"
    by (simp add: valid_active_def shown_def scenario_def initial_state_def last_lines_def)
  have k: "set [KEY_DOWN, KEY_DOWN, KEY_DOWN, KEY_UP] \<subseteq> {KEY_UP, KEY_DOWN}" by simp
  have r: "run_keys plain_world [KEY_DOWN, KEY_DOWN, KEY_DOWN, KEY_UP] shown =
      Continue (shown\<lparr>active := 1\<rparr>)"
    by (simp add: mainloop_step_def finish_def move_active_def KEY_UP_def KEY_DOWN_def
        KEY_BACKSPACE_def KEY_RESIZE_def shown_def scenario_def initial_state_def)
  from navigation_stays_in_range [of shown "[KEY_DOWN, KEY_DOWN, KEY_DOWN, KEY_UP]" plain_world] v k
  show ?thesis unfolding r by auto
qed

section \<open>Splitting paths\<close>

lemma py_split_not_Nil [simp]: "py_split c xs \<noteq> []"
  by (induction xs) (auto split: list.splits)


















section \<open>Tree flattener: nodes and line-index sets\<close>

lemma row_simps [simp]:
  "row_path (level, xline, parent, name, fullpath) = fullpath"
  "row_line (level, xline, parent, name, fullpath) = xline"
  "row_node (level, xline, parent, name, fullpath) = (level, xline, name, fullpath)"
  by (simp_all add: row_path_def row_line_def row_node_def)

lemma keep_first_snoc:
  "keep_first key seen (xs @ [l]) =
     keep_first key seen xs @ (if key l \<in> seen \<union> key ` set xs then [] else [l])"
  by (induction xs arbitrary: seen) auto


lemma add_level_traced:
  assumes "traced hist a"
  shows "\<exists>a'. add_level l a = Inr a' \<and> traced (hist @ [l]) a' \<and> line a' = line a"
proof -
  obtain level xline parent name fullpath where l: "l = (level, xline, parent, name, fullpath)"
    by (cases l) auto
  show ?thesis
  proof (cases "fullpath \<in> used a")
    case False
    with assms show ?thesis unfolding l
      by (auto simp: traced_def keep_first_snoc filter_empty_conv)
  next
    case True
    with assms have "cache a fullpath =
        Some (map row_line (filter (\<lambda>l. row_path l = fullpath) hist))"
      by (simp add: traced_def)
    with True assms show ?thesis unfolding l
      by (auto simp: traced_def keep_first_snoc)
  qed
qed

lemma add_levels_traced:
  assumes "traced hist a"
  shows "\<exists>a'. add_levels ls a = Inr a' \<and> traced (hist @ ls) a' \<and> line a' = line a"
  using assms
proof (induction ls arbitrary: hist a)
  case Nil
  then show ?case by simp
next
  case (Cons l ls)
  from add_level_traced [OF Cons.prems, of l] obtain a1 where
    a1: "add_level l a = Inr a1" "traced (hist @ [l]) a1" "line a1 = line a" by blast
  from Cons.IH [OF a1(2)] obtain a2 where
    "add_levels ls a1 = Inr a2" "traced ((hist @ [l]) @ ls) a2" "line a2 = line a1" by blast
  with a1 show ?case by simp
qed

lemma traced_line [simp]: "traced hist (a\<lparr>line := n\<rparr>) = traced hist a"
  by (simp add: traced_def)




lemma os_split_facts:
  assumes "os_split p = (t, r)"
  shows "sep \<notin> set r" and "length t + length r \<le> length p"
    and "t \<noteq> [] \<Longrightarrow> hd t = hd p"
    and "t \<noteq> [] \<Longrightarrow> hd t = sep \<or> (last t \<noteq> sep \<and> length t + length r < length p)"
    and "t = [] \<Longrightarrow> sep \<notin> set p"
proof -
  define T where "T = takeWhile (\<lambda>c. c \<noteq> sep) (rev p)"
  define D where "D = dropWhile (\<lambda>c. c \<noteq> sep) (rev p)"
  define S where "S = takeWhile (\<lambda>c. c = sep) D"
  define X where "X = dropWhile (\<lambda>c. c = sep) D"
  have "rev (T @ D) = p" unfolding T_def D_def by (simp only: takeWhile_dropWhile_id rev_rev_ident)
  then have p: "rev D @ rev T = p" by simp
  have "rev (S @ X) = rev D" unfolding S_def X_def by (simp only: takeWhile_dropWhile_id)
  then have rD: "rev X @ rev S = rev D" by simp
  have lenD: "length D = length S + length X" using arg_cong [OF rD, of length] by simp
  have lenp: "length p = length D + length T" using arg_cong [OF p, of length] by simp
  from assms [unfolded os_split_def Let_def, folded T_def D_def]
  have r: "r = rev T"
    and t: "t = (if D \<noteq> [] \<and> rev D \<noteq> replicate (length D) sep then rev X else rev D)"
    by (auto simp: X_def)
  show "sep \<notin> set r" unfolding r T_def using set_takeWhileD [of sep "\<lambda>c. c \<noteq> sep" "rev p"] by auto
  show "length t + length r \<le> length p" using lenD lenp unfolding r t by auto
  have hdD: "D \<noteq> [] \<Longrightarrow> hd D = sep"
    unfolding D_def using hd_dropWhile [of "\<lambda>c. c \<noteq> sep" "rev p"] by auto
  have hdX: "X \<noteq> [] \<Longrightarrow> hd X \<noteq> sep"
    unfolding X_def using hd_dropWhile [of "\<lambda>c. c = sep" D] by auto
  {
    assume e: "t = []"
    have "D = []"
    proof (rule ccontr)
      assume ne: "D \<noteq> []"
      with e t have not_all: "rev D \<noteq> replicate (length D) sep" and "X = []"
        by (auto split: if_splits)
      with rD have "rev S = rev D" by simp
      then have "set (rev D) = set S" by (metis set_rev)
      moreover have "\<And>y. y \<in> set S \<Longrightarrow> y = sep"
        unfolding S_def by (auto dest: set_takeWhileD)
      ultimately have "\<And>y. y \<in> set (rev D) \<Longrightarrow> y = sep" by blast
      then have "rev D = replicate (length D) sep" by (intro replicate_eqI) simp_all
      with not_all show False by simp
    qed
    then have "\<forall>x\<in>set (rev p). x \<noteq> sep"
      unfolding D_def by (simp only: dropWhile_eq_Nil_conv)
    then show "sep \<notin> set p" by auto
  }
  {
    assume ne: "t \<noteq> []"
    have "\<exists>zs. t @ zs = p"
    proof (cases "D \<noteq> [] \<and> rev D \<noteq> replicate (length D) sep")
      case True
      then have "t = rev X" using t by simp
      then have "t @ (rev S @ rev T) = p" using rD p by (metis append_assoc)
      then show ?thesis ..
    next
      case False
      then have "t = rev D" using t by auto
      then have "t @ rev T = p" using p by simp
      then show ?thesis ..
    qed
    then obtain zs where "t @ zs = p" ..
    with ne show "hd t = hd p" by (cases t) auto
    show "hd t = sep \<or> (last t \<noteq> sep \<and> length t + length r < length p)"
    proof (cases "D \<noteq> [] \<and> rev D \<noteq> replicate (length D) sep")
      case True
      then have tX: "t = rev X" using t by simp
      with ne have "X \<noteq> []" by simp
      with hdX tX have "last t \<noteq> sep" by (simp add: last_rev)
      moreover from True hdD have "S \<noteq> []" unfolding S_def by (cases D) auto
      then have "length X < length D" using lenD by (cases S) auto
      ultimately show ?thesis using lenp unfolding tX r by simp
    next
      case False
      with ne t have tD: "t = rev D" and rep: "rev D = replicate (length D) sep" by auto
      from ne tD have "0 < length D" by simp
      then obtain n where "length D = Suc n" by (cases "length D") auto
      with rep tD have "hd t = sep" by simp
      then show ?thesis ..
    qed
  }
qed

lemma leading_sep_None:
  assumes "p \<noteq> []" and "hd p = sep"
  shows "path_splitter d p = None"
  using assms
proof (induction d arbitrary: p)
  case 0
  show ?case by simp
next
  case (Suc d)
  obtain t r where sp: "os_split p = (t, r)" by (cases "os_split p") auto
  have "t \<noteq> []"
  proof
    assume "t = []"
    then have "sep \<notin> set p" by (rule os_split_facts(5) [OF sp])
    with Suc.prems show False by (cases p) auto
  qed
  moreover from this os_split_facts(3) [OF sp] Suc.prems have "hd t = sep" by simp
  ultimately have "path_splitter d t = None" by (rule Suc.IH)
  with sp \<open>t \<noteq> []\<close> show ?case by simp
qed










text \<open>A line-index set is strictly ascending, and not empty for a path that occurs.\<close>

lemma lines_through_ascending:
  "sorted (lines_through d hs fp) \<and> distinct (lines_through d hs fp)"
proof -
  have "sorted_wrt (<) (filter (\<lambda>i. fp \<in> set (hit_paths d (hs ! i))) [0..<length hs])"
    by (rule sorted_wrt_filter) simp
  then have "sorted_wrt (<) (lines_through d hs fp)"
    by (simp add: lines_through_def sorted_wrt_map)
  then show ?thesis by (simp add: strict_sorted_iff)
qed

lemma lines_through_nonempty:
  assumes "fp \<in> set (concat (map (hit_paths d) hs))"
  shows "lines_through d hs fp \<noteq> []"
proof -
  from assms obtain f where "f \<in> set hs" "fp \<in> set (hit_paths d f)" by auto
  then obtain i where "i < length hs" "fp \<in> set (hit_paths d (hs ! i))"
    by (metis in_set_conv_nth)
  then show ?thesis by (auto simp: lines_through_def filter_empty_conv)
qed





text \<open>
  A hit that begins with the separator makes \<open>path_splitter\<close> call itself on the root
  directory without end: the flattener raises and leaves the Display Nodes as they were.
\<close>

lemma flatten_hits_raises:
  assumes "traced hist a" and "\<exists>f\<in>set hs. path_splitter d f = None"
  shows "flatten_hits d hs a = Inl RecursionError"
  using assms
proof (induction hs arbitrary: hist a)
  case Nil
  then show ?case by simp
next
  case (Cons f rest)
  show ?case
  proof (cases "path_splitter d f")
    case None
    then show ?thesis by simp
  next
    case (Some toks)
    from Cons.prems(1) have "traced hist (a\<lparr>line := line a + 1\<rparr>)" by simp
    from add_levels_traced [OF this, of "mk_levels (line a) toks"] obtain a1 where
      a1: "add_levels (mk_levels (line a) toks) (a\<lparr>line := line a + 1\<rparr>) = Inr a1"
        "traced (hist @ mk_levels (line a) toks) a1"
      by auto
    from Cons.prems(2) Some have "\<exists>f\<in>set rest. path_splitter d f = None" by auto
    from Cons.IH [OF a1(2) this] Some a1(1) show ?thesis by simp
  qed
qed

lemma create_levels_absolute_hit:
  assumes "\<exists>f\<in>set (hit_list s). f \<noteq> [] \<and> hd f = sep"
  shows "create_levels ev s = Raised RecursionError s"
proof -
  from assms have "\<exists>f\<in>set (hit_list s). path_splitter (recursion_limit ev) f = None"
    using leading_sep_None by blast
  moreover have "traced [] init_locals" by (simp add: traced_def init_locals_def)
  ultimately have "flatten_hits (recursion_limit ev) (hit_list s) init_locals = Inl RecursionError"
    by (rule flatten_hits_raises [rotated])
  then show ?thesis by (simp add: create_levels_def)
qed

section \<open>Path indexer: roots\<close>

text \<open>
  A root that is not a directory ends the program with exit status 1 after a line on the
  error stream, before the state file is read and the main loop is entered.
\<close>

lemma index_roots_missing:
  assumes "\<exists>root\<in>set rs. fs ev root = None"
  shows "\<exists>s'. index_roots ev rs s = Raised (SystemExit 1) s' \<and>
          length (stderr s') = Suc (length (stderr s)) \<and>
          treeview_levels s' = treeview_levels s \<and> hits s' = hits s \<and> active s' = active s"
  using assms
proof (induction rs arbitrary: s)
  case Nil
  then show ?case by simp
next
  case (Cons root rest)
  show ?case
  proof (cases "fs ev root")
    case None
    then show ?thesis by simp
  next
    case (Some entries)
    with Cons.prems have "\<exists>root\<in>set rest. fs ev root = None" by auto
    from Cons.IH [OF this,
        of "s\<lparr>heap := (heap s)(files s := heap s (files s) @ walk_files root entries)\<rparr>"] Some
    show ?thesis by simp
  qed
qed

lemma index_roots_dirs:
  assumes "\<forall>root\<in>set rs. fs ev root \<noteq> None"
  shows "\<exists>s'. index_roots ev rs s = Returned s' \<and> stderr s' = stderr s"
  using assms
proof (induction rs arbitrary: s)
  case Nil
  then show ?case by simp
next
  case (Cons root rest)
  then obtain entries where e: "fs ev root = Some entries" by auto
  from Cons.prems have "\<forall>root\<in>set rest. fs ev root \<noteq> None" by simp
  from Cons.IH [OF this,
      of "s\<lparr>heap := (heap s)(files s := heap s (files s) @ walk_files root entries)\<rparr>"] e
  show ?case by simp
qed

lemma missing_root_exits:
  assumes "\<exists>root\<in>set args. fs ev root = None"
  shows "\<exists>s'. main ev fzf args keys = Crash (SystemExit 1) s' \<and> stderr s' \<noteq> [] \<and>
          treeview_levels s' = []"
proof -
  let ?s0 = "initial_state\<lparr>fzf_match := fzf, roots := args\<rparr>"
  from assms have ne: "args \<noteq> []" by auto
  from assms have "\<exists>root\<in>set (roots ?s0). fs ev root = None" by simp
  from index_roots_missing [OF this, of ?s0] obtain s' where
    "index_roots ev (roots ?s0) ?s0 = Raised (SystemExit 1) s'"
    "length (stderr s') = Suc (length (stderr ?s0))" "treeview_levels s' = treeview_levels ?s0"
    by blast
  with ne show ?thesis by (auto simp: main_def find_files_def Let_def initial_state_def)
qed

text \<open>
  C9. The first half holds (\<open>missing_root_exits\<close>). The second half, that indexing
  succeeds and reports no error when every root is a directory, fails for a root given as
  an absolute path: \<open>find_files\<close> ends with \<open>create_levels\<close>, whose \<open>path_splitter\<close>
  calls itself on \<open>/\<close> without end, whatever the interpreter's recursion limit. Here
  \<open>/srv\<close> is a directory holding the file \<open>x\<close>, and \<open>fsok /srv\<close> dies of a
  RecursionError.
\<close>

theorem absolute_root_recursion_error:
  "fs (srv_world n) ''/srv'' \<noteq> None \<and>
   (\<exists>s. main (srv_world n) False [''/srv''] keys = Crash RecursionError s \<and>
        hit_list s = [''/srv/x''] \<and> stderr s = [])"
proof -
  have "path_splitter n ''/srv/x'' = None"
    by (rule leading_sep_None) (simp_all add: sep_def)
  then show ?thesis
    by (simp add: srv_world_def plain_world_def main_def find_files_def initial_state_def
        create_levels_def hit_list_def skipfiles_def os_join_def sep_def walk_files.simps)
qed

section \<open>Matcher: delegated fuzzy mode\<close>

lemma chr_x: "char_of (120 :: nat) = CHR ''x''"
  by (simp add: char_of_def bit_0 bit_Suc)

lemma printable_key_step:
  assumes "py_isprintable ch"
  shows "mainloop_step ev ch s =
           finish ev True (Returned (s\<lparr>searchstr := searchstr s @ [char_of (nat ch)]\<rparr>))"
proof -
  from assms have "32 \<le> ch" and "ch \<le> 254" by (auto simp: py_isprintable_def)
  with assms show ?thesis
    by (simp add: mainloop_step_def KEY_BACKSPACE_def KEY_RESIZE_def)
qed

lemma search_files_launch_failed:
  assumes "fzf_match s" and "searchstr s \<noteq> []"
    and "fzf_run ev (file_list s) (searchstr s) = Launch_failed"
  shows "search_files ev s = Raised OSError s"
  using assms by (simp add: search_files_def fzf_search_def)

lemma search_files_no_output:
  assumes "fzf_match s" and "searchstr s \<noteq> []"
    and "fzf_run ev (file_list s) (searchstr s) = Output out" and "py_strip out = []"
    and "0 < recursion_limit ev"
  shows "\<exists>s'. search_files ev s = Returned s'"
proof -
  from assms(5) obtain d where d: "recursion_limit ev = Suc d" by (cases "recursion_limit ev") auto
  from assms(1-4) show ?thesis
    by (simp add: search_files_def fzf_search_def create_levels_def d os_split_def
        mk_levels_def init_locals_def set_active_def hit_list_def bind_hits_new_def)
qed

text \<open>
  C2, amended. In delegated fuzzy mode with a non-empty token: when the external matcher
  cannot be started, \<open>search_files\<close> raises before it touches the Hit List, which stays
  unchanged; the exception ends the main loop when a key started the search, and is
  swallowed only when \<open>restore_state\<close> started it. When the matcher runs and its output
  is empty or blank, the search returns and the main loop continues.
\<close>

theorem fuzzy_matcher_failure:
  "(fzf_match s \<and> searchstr s \<noteq> [] \<and>
      fzf_run ev (file_list s) (searchstr s) = Launch_failed \<longrightarrow>
        search_files ev s = Raised OSError s) \<and>
   (fzf_match s \<and> py_isprintable ch \<and>
      fzf_run ev (file_list s) (searchstr s @ [char_of (nat ch)]) = Launch_failed \<longrightarrow>
        mainloop_step ev ch s =
          Crash OSError (s\<lparr>searchstr := searchstr s @ [char_of (nat ch)]\<rparr>)) \<and>
   (fzf_match s \<and> state_file ev = Some raw \<and> py_strip raw \<noteq> [] \<and>
      fzf_run ev (file_list s) (py_strip raw) = Launch_failed \<longrightarrow>
        restore_state ev s = Returned (s\<lparr>searchstr := py_strip raw\<rparr>)) \<and>
   (fzf_match s \<and> py_isprintable ch \<and> 0 < recursion_limit ev \<and>
      fzf_run ev (file_list s) (searchstr s @ [char_of (nat ch)]) = Output out \<and>
      py_strip out = [] \<longrightarrow>
        (\<exists>s'. mainloop_step ev ch s = Continue s'))"
proof (intro conjI impI)
  assume "fzf_match s \<and> searchstr s \<noteq> [] \<and>
      fzf_run ev (file_list s) (searchstr s) = Launch_failed"
  then show "search_files ev s = Raised OSError s"
    by (simp add: search_files_launch_failed)
next
  let ?s1 = "s\<lparr>searchstr := searchstr s @ [char_of (nat ch)]\<rparr>"
  assume a: "fzf_match s \<and> py_isprintable ch \<and>
      fzf_run ev (file_list s) (searchstr s @ [char_of (nat ch)]) = Launch_failed"
  then have "search_files ev ?s1 = Raised OSError ?s1"
    by (intro search_files_launch_failed) (simp_all add: file_list_def)
  with a show "mainloop_step ev ch s = Crash OSError ?s1"
    by (simp add: printable_key_step finish_def)
next
  let ?s1 = "s\<lparr>searchstr := py_strip raw\<rparr>"
  assume a: "fzf_match s \<and> state_file ev = Some raw \<and> py_strip raw \<noteq> [] \<and>
      fzf_run ev (file_list s) (py_strip raw) = Launch_failed"
  then have "search_files ev ?s1 = Raised OSError ?s1"
    by (intro search_files_launch_failed) (simp_all add: file_list_def)
  with a show "restore_state ev s = Returned ?s1"
    by (simp add: restore_state_def)
next
  let ?s1 = "s\<lparr>searchstr := searchstr s @ [char_of (nat ch)]\<rparr>"
  assume a: "fzf_match s \<and> py_isprintable ch \<and> 0 < recursion_limit ev \<and>
      fzf_run ev (file_list s) (searchstr s @ [char_of (nat ch)]) = Output out \<and>
      py_strip out = []"
  then have "\<exists>s'. search_files ev ?s1 = Returned s'"
    by (intro search_files_no_output [where out = out]) (simp_all add: file_list_def)
  with a show "\<exists>s'. mainloop_step ev ch s = Continue s'"
    by (auto simp: printable_key_step finish_def)
qed

text \<open>
  C2 as stated fails: in fuzzy mode with no fuzzy matcher to start, typing \<open>x\<close> ends the
  main loop with the uncaught exception.
\<close>

theorem fuzzy_matcher_fatal_counterexample:
  "fzf_match ((scenario [])\<lparr>fzf_match := True\<rparr>) \<and>
   fzf_run plain_world scenario_files ''x'' = Launch_failed \<and>
   mainloop_step plain_world 120 ((scenario [])\<lparr>fzf_match := True\<rparr>) =
     Crash OSError ((scenario ''x'')\<lparr>fzf_match := True\<rparr>)"
  by (simp add: mainloop_step_def finish_def search_files_def fzf_search_def
      KEY_BACKSPACE_def KEY_RESIZE_def py_isprintable_def scenario_def plain_world_def
      file_list_def initial_state_def chr_x)

theorem fuzzy_matcher_failure_witness:
  "search_files plain_world ((scenario ''x'')\<lparr>fzf_match := True\<rparr>) =
     Raised OSError ((scenario ''x'')\<lparr>fzf_match := True\<rparr>) \<and>
   (\<exists>s'. mainloop_step silent_world 120 ((scenario [])\<lparr>fzf_match := True\<rparr>) = Continue s')"
proof -
  let ?s = "(scenario ''x'')\<lparr>fzf_match := True\<rparr>"
  let ?t = "(scenario [])\<lparr>fzf_match := True\<rparr>"
  have a: "fzf_match ?s \<and> searchstr ?s \<noteq> [] \<and>
      fzf_run plain_world (file_list ?s) (searchstr ?s) = Launch_failed"
    by (simp add: plain_world_def)
  have b: "fzf_match ?t \<and> py_isprintable 120 \<and> 0 < recursion_limit silent_world \<and>
      fzf_run silent_world (file_list ?t) (searchstr ?t @ [char_of (nat 120)]) = Output [] \<and>
      py_strip [] = []"
    by (simp add: silent_world_def plain_world_def py_isprintable_def py_strip_def)
  from fuzzy_matcher_failure [where s = ?s and ev = plain_world] a have 1: "search_files plain_world ?s = Raised OSError ?s"
    by blast
  from fuzzy_matcher_failure [where s = ?t and ch = 120 and ev = silent_world and out = "[]"] b
  have 2: "\<exists>s'. mainloop_step silent_world 120 ?t = Continue s'" by blast
  from 1 2 show ?thesis by simp
qed

text \<open>
  When the matcher runs and prints nothing, the Hit List is not empty: it holds the one
  empty path that splitting the empty output yields.
\<close>

lemma silent_matcher_hit_list:
  "hit_list (globals_of (search_files silent_world ((scenario ''x'')\<lparr>fzf_match := True\<rparr>))) = [[]]"
  by (simp add: search_files_def fzf_search_def silent_world_def plain_world_def scenario_def
      py_strip_def)

end
